theory Spec2Isabelle
  imports Main "HOL-Library.Sublist"
begin

section \<open>Values, promises and the environment\<close>

text \<open>
  JavaScript values that travel through the two files: the argument of a settle
  function, the payload of an error report, and what an object store holds. All of them
  are plain values: none is a promise or another thenable.
\<close>

datatype jsval =
    Undefined
  | Null
  | Num int
  | Str string
  | Bytes "nat list"
  | Ev string

text \<open>
  A \<open>goog.Promise\<close> is pending until the first call of one of its two settle
  functions; later calls are ignored.
\<close>

datatype pstate = Pending | Fulfilled jsval | Rejected jsval

text \<open>
  What the code reads from outside the two files: the compile-time flag
  \<open>goog.DEBUG\<close> and the answer of \<open>tachyfont.Reporter.isReady()\<close>.
\<close>

record env =
  goog_DEBUG :: bool
  Reporter_isReady :: bool

datatype level = FINER | WARNING

text \<open>
  The observable effects, in the order they happen: a call of \<open>goog.log.log\<close>
  (the text and the count appended to it), a call of \<open>goog.log.error\<close>, a call
  of \<open>tachyfont.Reporter.reportError\<close> (code, id, info), the first settlement
  of the promise with a given handle, and \<open>clearInterval\<close>.
\<close>

datatype event =
    Log level string int
  | LogError string
  | ReportError string string jsval
  | Settled nat
  | ClearInterval

section \<open>tachyfontpromise.js\<close>

text \<open>
  An object of class \<open>tachyfont.promise\<close>. A name cannot end in an underscore
  here, so the private fields lose theirs: \<open>promise\<close> is \<open>promise_\<close>, the handle
  of the object's \<open>goog.Promise\<close> in the heap of the world; \<open>container\<close> is
  \<open>container_\<close>, whether the object was given the sequencer as \<open>opt_container\<close>;
  \<open>unit_msg\<close> is \<open>msg_\<close>.
\<close>

record tpromise =
  promise :: nat
  precedingPromise :: "nat option"
  container :: bool
  unit_msg :: "string option"

text \<open>
  One \<open>tachyfont.chainedPromises\<close> object together with the promises it deals
  with and the effects observed so far. \<open>seq_msg\<close> is its \<open>msg_\<close>, and
  \<open>intervalActive\<close> is whether the interval behind \<open>intervalId_\<close> is still
  scheduled.
\<close>

record world =
  heap :: "pstate list"
  chainedCount :: int
  pendingCount :: int
  seq_msg :: string
  intervalActive :: bool
  timerReportCount :: int
  promises :: "tpromise list"
  events :: "event list"

definition FILE_ID :: string where "FILE_ID = ''ETP''"
definition PRECEDING_PROMISE :: string where "PRECEDING_PROMISE = ''01''"
definition RESOLVE_CHAINED_COUNT :: string where "RESOLVE_CHAINED_COUNT = ''02''"
definition REJECT_CHAINED_COUNT :: string where "REJECT_CHAINED_COUNT = ''03''"
definition LINGERING_PROMISE :: string where "LINGERING_PROMISE = ''04''"

text \<open>String concatenation turns an undefined operand into the text \<open>undefined\<close>.\<close>

fun js_string :: "string option \<Rightarrow> string" where
  "js_string None = ''undefined''"
| "js_string (Some s) = s"

fun js_value :: "string option \<Rightarrow> jsval" where
  "js_value None = Undefined"
| "js_value (Some s) = Str s"

definition emit :: "event list \<Rightarrow> world \<Rightarrow> world" where
  "emit es w = w\<lparr>events := events w @ es\<rparr>"

text \<open>\<open>tachyfont.promise.reportError_\<close>: the effects of one call.\<close>

definition promise_reportError :: "env \<Rightarrow> string \<Rightarrow> jsval \<Rightarrow> event list" where
  "promise_reportError e errNum errInfo =
     (if goog_DEBUG e \<and> \<not> Reporter_isReady e
      then [LogError ''failed to report error''] else []) @
     (if Reporter_isReady e
      then [ReportError (FILE_ID @ errNum) ''000'' errInfo] else [])"

text \<open>
  The settle functions captured from \<open>goog.Promise\<close>, called with a plain value: the
  first call on a pending promise settles it, every other call changes nothing. (Given
  a promise or another thenable as the value, the library would instead block the
  promise until that value settles; no value of \<open>jsval\<close> is one.)
\<close>

definition goog_settle :: "nat \<Rightarrow> pstate \<Rightarrow> world \<Rightarrow> world" where
  "goog_settle h st w =
     (if h < length (heap w) \<and> heap w ! h = Pending
      then w\<lparr>heap := (heap w)[h := st], events := events w @ [Settled h]\<rparr>
      else w)"

text \<open>The constructor \<open>tachyfont.promise(opt_container, opt_msg)\<close>.\<close>

definition tachyfont_promise :: "bool \<Rightarrow> string option \<Rightarrow> world \<Rightarrow> world \<times> tpromise" where
  "tachyfont_promise opt_container opt_msg w =
     (w\<lparr>heap := heap w @ [Pending]\<rparr>,
      \<lparr>promise = length (heap w), precedingPromise = None,
       container = opt_container, unit_msg = opt_msg\<rparr>)"

definition getPromise :: "tpromise \<Rightarrow> nat" where
  "getPromise this = promise this"

definition getPrecedingPromise :: "env \<Rightarrow> tpromise \<Rightarrow> world \<Rightarrow> world \<times> nat option" where
  "getPrecedingPromise e this w =
     ((if precedingPromise this = None
       then emit (promise_reportError e PRECEDING_PROMISE (js_value (unit_msg this))) w
       else w),
      precedingPromise this)"

definition reject :: "env \<Rightarrow> tpromise \<Rightarrow> jsval \<Rightarrow> world \<Rightarrow> world" where
  "reject e this opt_value w =
     (let w1 = goog_settle (promise this) (Rejected opt_value) w in
      if container this then
        (let w2 = (if length (promises w1) \<le> 1 \<and> chainedCount w1 \<noteq> 0
                   then emit (promise_reportError e REJECT_CHAINED_COUNT (js_value (unit_msg this))) w1
                   else w1)
         in if length (promises w2) > 1 then
              (let w3 = w2\<lparr>promises := tl (promises w2),
                           pendingCount := pendingCount w2 - 1\<rparr>
               in if goog_DEBUG e
                  then emit [Log FINER (js_string (unit_msg this) @ ''dropped count to '')
                                (pendingCount w3)] w3
                  else w3)
            else w2)
      else w1)"

definition resolve :: "env \<Rightarrow> tpromise \<Rightarrow> jsval \<Rightarrow> world \<Rightarrow> world" where
  "resolve e this opt_value w =
     (let w1 = goog_settle (promise this) (Fulfilled opt_value) w in
      if container this then
        (let w2 = (if length (promises w1) \<le> 1 \<and> chainedCount w1 \<noteq> 0
                   then emit (promise_reportError e RESOLVE_CHAINED_COUNT (js_value (unit_msg this))) w1
                   else w1)
         in if length (promises w2) > 1 then
              (let w3 = w2\<lparr>promises := tl (promises w2),
                           pendingCount := pendingCount w2 - 1\<rparr>
               in if goog_DEBUG e
                  then emit [Log FINER (js_string (unit_msg this) @ ''dropped count to '')
                                (pendingCount w3)] w3
                  else w3)
            else w2)
      else w1)"

text \<open>
  The function handed to \<open>setInterval\<close> in the constructor of
  \<open>tachyfont.chainedPromises\<close>.
\<close>

definition watchdog :: "env \<Rightarrow> world \<Rightarrow> world" where
  "watchdog e w =
     (if pendingCount w \<noteq> 0 then
        (let w1 = (if goog_DEBUG e
                   then emit [Log WARNING (seq_msg w @ ''lingering pending count: '')
                                 (pendingCount w)] w
                   else w);
             w2 = w1\<lparr>timerReportCount := timerReportCount w1 + 1\<rparr>
         in if timerReportCount w2 \<ge> 10 then
              (let w3 = emit (promise_reportError e LINGERING_PROMISE
                                (Str (seq_msg w2 @ ''gave up checking for pending count''))) w2
               in (emit [ClearInterval] w3)\<lparr>intervalActive := False\<rparr>)
            else w2)
      else w\<lparr>timerReportCount := 0\<rparr>)"

text \<open>The timer fires: the function runs only while the interval is scheduled.\<close>

definition tick :: "env \<Rightarrow> world \<Rightarrow> world" where
  "tick e w = (if intervalActive w then watchdog e w else w)"

text \<open>The constructor \<open>tachyfont.chainedPromises(msg)\<close>.\<close>

definition chainedPromises :: "env \<Rightarrow> string \<Rightarrow> world" where
  "chainedPromises e msg =
     (let w0 = \<lparr>heap = [], chainedCount = 0, pendingCount = 0, seq_msg = msg @ '': '',
                intervalActive = True, timerReportCount = 0, promises = [], events = []\<rparr>;
          (w1, firstPromise) = tachyfont_promise True None w0;
          firstPromise' = firstPromise\<lparr>precedingPromise := Some (promise firstPromise)\<rparr>;
          w2 = w1\<lparr>promises := promises w1 @ [firstPromise']\<rparr>
      in resolve e firstPromise' Undefined w2)"

text \<open>
  \<open>getChainedPromise(msg)\<close>. Reading \<open>promise_\<close> of the last queue entry throws a
  TypeError when the queue is empty; the counters and the new object exist by then.
\<close>

datatype jserror = TypeError

definition getChainedPromise :: "env \<Rightarrow> string \<Rightarrow> world \<Rightarrow> world \<times> (jserror + tpromise)" where
  "getChainedPromise e msg w =
     (let w1 = w\<lparr>chainedCount := chainedCount w + 1, pendingCount := pendingCount w + 1\<rparr>;
          w2 = (if goog_DEBUG e
                then emit [Log FINER (seq_msg w1 @ msg @ '': increase pending count to '')
                              (pendingCount w1)] w1
                else w1);
          (w3, newPromise) = tachyfont_promise True (Some msg) w2
      in case promises w3 of
           [] \<Rightarrow> (w3, Inl TypeError)
         | _ # _ \<Rightarrow>
            (let preceding = last (promises w3);
                 newPromise' = newPromise\<lparr>precedingPromise := Some (promise preceding)\<rparr>
             in (w3\<lparr>promises := promises w3 @ [newPromise']\<rparr>, Inr newPromise')))"

subsection \<open>Runs of one sequencer\<close>

text \<open>
  The callers of one sequencer, as a list of calls. A run keeps, beside the world, the
  objects the sequencer has created so far, in creation order: the first promise of the
  constructor at index 0, then every object returned by \<open>getChainedPromise\<close>.
  \<open>Resolve i v\<close> and \<open>Reject i v\<close> call the method on the object at index \<open>i\<close>;
  a call on an object that does not exist yet cannot be made, and neither can anything
  after a call that threw.
\<close>

datatype call =
    Get string
  | Resolve nat jsval
  | Reject nat jsval
  | Tick

type_synonym run_state = "world \<times> tpromise list"

fun step :: "env \<Rightarrow> call \<Rightarrow> run_state \<Rightarrow> run_state option" where
  "step e (Get msg) (w, us) =
     (case getChainedPromise e msg w of
        (w', Inr u) \<Rightarrow> Some (w', us @ [u])
      | (w', Inl _) \<Rightarrow> None)"
| "step e (Resolve i v) (w, us) =
     (if i < length us then Some (resolve e (us ! i) v w, us) else None)"
| "step e (Reject i v) (w, us) =
     (if i < length us then Some (reject e (us ! i) v w, us) else None)"
| "step e Tick (w, us) = Some (tick e w, us)"

fun run :: "env \<Rightarrow> call list \<Rightarrow> run_state \<Rightarrow> run_state option" where
  "run e [] s = Some s"
| "run e (c # cs) s = (case step e c s of None \<Rightarrow> None | Some s' \<Rightarrow> run e cs s')"

definition start :: "env \<Rightarrow> string \<Rightarrow> run_state" where
  "start e msg = (let w = chainedPromises e msg in (w, promises w))"

text \<open>The calls of \<open>getChainedPromise\<close> in a list of calls, counted.\<close>

fun gets :: "call list \<Rightarrow> nat" where
  "gets [] = 0"
| "gets (Get msg # cs) = Suc (gets cs)"
| "gets (c # cs) = gets cs"

text \<open>The objects a list of calls settles, by index, one entry for each call.\<close>

fun settles :: "call list \<Rightarrow> nat list" where
  "settles [] = []"
| "settles (Resolve i v # cs) = i # settles cs"
| "settles (Reject i v # cs) = i # settles cs"
| "settles (c # cs) = settles cs"

text \<open>
  The handles of the promises in the order in which they were settled, as a listener
  on all of them sees it.
\<close>

fun settle_order :: "event list \<Rightarrow> nat list" where
  "settle_order [] = []"
| "settle_order (Settled h # es) = h # settle_order es"
| "settle_order (x # es) = settle_order es"

text \<open>
  What the callers of the sequencer are asked to do: wait for the promise returned by
  \<open>getPrecedingPromise()\<close> before anything else, and settle their own object only
  then. \<open>waited w u\<close> says that this wait is over in the world \<open>w\<close>; an undefined
  preceding promise means there is nothing to wait for.
\<close>

definition waited :: "world \<Rightarrow> tpromise \<Rightarrow> bool" where
  "waited w u =
     (case precedingPromise u of
        None \<Rightarrow> True
      | Some h \<Rightarrow> h < length (heap w) \<and> heap w ! h \<noteq> Pending)"

fun patient :: "call \<Rightarrow> run_state \<Rightarrow> bool" where
  "patient (Resolve i v) (w, us) = (i < length us \<and> waited w (us ! i))"
| "patient (Reject i v) (w, us) = (i < length us \<and> waited w (us ! i))"
| "patient c s = True"

text \<open>A list of calls in which every settle call is made by a caller that has waited.\<close>

fun cooperative :: "env \<Rightarrow> call list \<Rightarrow> run_state \<Rightarrow> bool" where
  "cooperative e [] s = True"
| "cooperative e (c # cs) s =
     (patient c s \<and> (case step e c s of None \<Rightarrow> False | Some s' \<Rightarrow> cooperative e cs s'))"

text \<open>The reports of a lingering promise among the effects.\<close>

fun is_lingering :: "event \<Rightarrow> bool" where
  "is_lingering (ReportError code errId info) = (code = FILE_ID @ LINGERING_PROMISE)"
| "is_lingering x = False"

fun is_warning :: "event \<Rightarrow> bool" where
  "is_warning (Log lv text n) = (lv = WARNING)"
| "is_warning x = False"

text \<open>Two environments to evaluate in: a debug build and a production build.\<close>

definition debug_build :: env where
  "debug_build = \<lparr>goog_DEBUG = True, Reporter_isReady = True\<rparr>"

definition production_build :: env where
  "production_build = \<lparr>goog_DEBUG = False, Reporter_isReady = True\<rparr>"

section \<open>persist_idb.js\<close>

definition Persist_FILE_ID :: string where "Persist_FILE_ID = ''EPI''"
definition OPEN_IDB :: string where "OPEN_IDB = ''01''"
definition IDB_ON_UPGRAGE_NEEDED :: string where "IDB_ON_UPGRAGE_NEEDED = ''02''"
definition DELETED_DATA :: string where "DELETED_DATA = ''03''"
definition DELETE_DATA_FAILED :: string where "DELETE_DATA_FAILED = ''04''"
definition DELETE_DATA_BLOCKED :: string where "DELETE_DATA_BLOCKED = ''05''"
definition END_VALUE :: string where "END_VALUE = ''00''"

text \<open>\<open>tachyfont.Persist.reportError_\<close>: the effects of one call.\<close>

definition Persist_reportError :: "env \<Rightarrow> string \<Rightarrow> string \<Rightarrow> jsval \<Rightarrow> event list" where
  "Persist_reportError e errNum errId errInfo =
     (if goog_DEBUG e \<and> \<not> Reporter_isReady e
      then [LogError ''failed to report error''] else []) @
     (if Reporter_isReady e
      then [ReportError (Persist_FILE_ID @ errNum) errId errInfo] else [])"

text \<open>
  The browser's IndexedDB, which the repository calls and does not contain: a database
  is its object stores by name, an object store its values by key;
  \<open>transaction([name]).objectStore(name)\<close> throws when the database has no store of
  that name.
\<close>

type_synonym objectStore = "int \<rightharpoonup> jsval"
type_synonym IDBDatabase = "string \<rightharpoonup> objectStore"

text \<open>
  Modelled from the spec: \<open>put\<close> and \<open>get\<close> of an object store, which are the
  browser's. Section 4.3 of the spec gives a named record store as
  put-single-blob(key, value) with a completion signal and get-single-blob(key) with the
  value or a not-found signal; the browser's \<open>get\<close> signals not-found by a successful
  request whose result is \<open>undefined\<close>.
\<close>

definition store_put :: "objectStore \<Rightarrow> jsval \<Rightarrow> int \<Rightarrow> objectStore" where
  "store_put store data key = store(key \<mapsto> data)"

definition store_get :: "objectStore \<Rightarrow> int \<Rightarrow> jsval" where
  "store_get store key = (case store key of None \<Rightarrow> Undefined | Some v \<Rightarrow> v)"

text \<open>
  What the browser fires on a request: \<open>onsuccess\<close> (with \<open>e.target.result\<close>),
  \<open>onerror\<close> or \<open>onblocked\<close>.
\<close>

datatype idb_event = onsuccess jsval | onerror | onblocked

text \<open>\<open>new goog.Promise(...)\<close>: a fresh pending promise and its handle.\<close>

definition goog_Promise :: "world \<Rightarrow> world \<times> nat" where
  "goog_Promise w = (w\<lparr>heap := heap w @ [Pending]\<rparr>, length (heap w))"

text \<open>
  \<open>saveData(idb, name, data)\<close>. \<open>completes\<close> is the browser's part: whether the
  put request ends in \<open>onsuccess\<close> (and the value is stored) or in \<open>onerror\<close>. An
  exception thrown inside the function given to \<open>goog.Promise\<close> rejects the promise.
\<close>

definition saveData ::
  "IDBDatabase \<Rightarrow> string \<Rightarrow> jsval \<Rightarrow> bool \<Rightarrow> world \<Rightarrow> IDBDatabase \<times> world \<times> nat" where
  "saveData idb name data completes w =
     (let (w1, h) = goog_Promise w in
      case idb name of
        None \<Rightarrow> (idb, goog_settle h (Rejected (Ev ''NotFoundError'')) w1, h)
      | Some store \<Rightarrow>
          if completes
          then (idb(name \<mapsto> store_put store data 0),
                goog_settle h (Fulfilled Undefined) w1, h)
          else (idb, goog_settle h (Rejected (Ev ''error'')) w1, h))"

text \<open>
  \<open>getData(idb, name)\<close>. The test \<open>result != undefined\<close> is the loose one: it fails
  for \<open>undefined\<close> and for \<open>null\<close>.
\<close>

definition getData :: "IDBDatabase \<Rightarrow> string \<Rightarrow> bool \<Rightarrow> world \<Rightarrow> world \<times> nat" where
  "getData idb name completes w =
     (let (w1, h) = goog_Promise w in
      case idb name of
        None \<Rightarrow> (goog_settle h (Rejected (Ev ''NotFoundError'')) w1, h)
      | Some store \<Rightarrow>
          if completes
          then (let result = store_get store 0 in
                if result \<noteq> Undefined \<and> result \<noteq> Null
                then (goog_settle h (Fulfilled result) w1, h)
                else (goog_settle h (Rejected (Ev ''success'')) w1, h))
          else (goog_settle h (Rejected (Ev ''error'')) w1, h))"

text \<open>
  \<open>deleteDatabase(dbName, id)\<close>: the three handlers set on the request, then the
  function itself, given the events the browser fires on the request, in order.
\<close>

fun deleteDatabase_handler :: "env \<Rightarrow> string \<Rightarrow> nat \<Rightarrow> idb_event \<Rightarrow> world \<Rightarrow> world" where
  "deleteDatabase_handler e errId h (onsuccess r) w =
     goog_settle h (Fulfilled Undefined)
       (emit (Persist_reportError e DELETED_DATA errId (Str ''Deleted database successfully'')) w)"
| "deleteDatabase_handler e errId h onerror w =
     goog_settle h (Rejected (Num 1))
       (emit (Persist_reportError e DELETE_DATA_FAILED errId (Str ''Delete database failed'')) w)"
| "deleteDatabase_handler e errId h onblocked w =
     goog_settle h (Rejected (Num 2))
       (emit (Persist_reportError e DELETE_DATA_BLOCKED errId (Str ''Delete database blocked'')) w)"

definition deleteDatabase ::
  "env \<Rightarrow> string \<Rightarrow> string \<Rightarrow> idb_event list \<Rightarrow> world \<Rightarrow> world \<times> nat" where
  "deleteDatabase e dbName errId fired w =
     (let (w1, h) = goog_Promise w
      in (fold (deleteDatabase_handler e errId h) fired w1, h))"

section \<open>Invariants of the queue\<close>

text \<open>
  The queue holds one entry more than the count of pending promises says, and is not
  empty.
\<close>

definition queue_inv :: "world \<Rightarrow> bool" where
  "queue_inv w \<longleftrightarrow> int (length (promises w)) = pendingCount w + 1 \<and> promises w \<noteq> []"

text \<open>
  The objects created by the sequencer and their promises are numbered alike, in the
  order of creation; each object but the first has the promise of the one before it as
  its preceding promise, the first has its own; the last object created is the last
  entry of the queue.
\<close>

definition chain_inv :: "run_state \<Rightarrow> bool" where
  "chain_inv s \<longleftrightarrow>
     (case s of (w, us) \<Rightarrow>
        us \<noteq> [] \<and> promises w \<noteq> [] \<and> last (promises w) = last us
        \<and> length (heap w) = length us
        \<and> map promise us = [0..<length us]
        \<and> precedingPromise (hd us) = Some 0
        \<and> (\<forall>i. 0 < i \<and> i < length us \<longrightarrow> precedingPromise (us ! i) = Some (i - 1))
        \<and> (\<forall>u\<in>set us. container u))"

text \<open>
  The promises settled so far are the first \<open>k\<close> in the order of creation, and they
  were settled in that order.
\<close>

definition order_inv :: "run_state \<Rightarrow> bool" where
  "order_inv s \<longleftrightarrow>
     (case s of (w, us) \<Rightarrow>
        \<exists>k\<le>length (heap w). settle_order (events w) = [0..<k]
           \<and> (\<forall>h<length (heap w). heap w ! h \<noteq> Pending \<longleftrightarrow> h < k))"

text \<open>
  The count of the watchdog stays between 0 and 10, the interval is scheduled exactly
  while it is below 10, and the lingering promise is reported only by the tick that
  cancels the interval.
\<close>

definition timer_inv :: "env \<Rightarrow> world \<Rightarrow> bool" where
  "timer_inv e w \<longleftrightarrow>
     0 \<le> timerReportCount w \<and> timerReportCount w \<le> 10
     \<and> (intervalActive w \<longleftrightarrow> timerReportCount w < 10)
     \<and> length (filter is_lingering (events w)) =
         (if \<not> intervalActive w \<and> Reporter_isReady e then 1 else 0)"

section \<open>Proofs\<close>

subsection \<open>What each operation does to the fields\<close>

lemma promises_goog_settle: "promises (goog_settle h st w) = promises w"
  and pendingCount_goog_settle: "pendingCount (goog_settle h st w) = pendingCount w"
  and chainedCount_goog_settle: "chainedCount (goog_settle h st w) = chainedCount w"
  and intervalActive_goog_settle: "intervalActive (goog_settle h st w) = intervalActive w"
  and timerReportCount_goog_settle: "timerReportCount (goog_settle h st w) = timerReportCount w"
  and seq_msg_goog_settle: "seq_msg (goog_settle h st w) = seq_msg w"
  and length_heap_goog_settle: "length (heap (goog_settle h st w)) = length (heap w)"
  by (simp_all add: goog_settle_def)

lemma promises_resolve:
  "promises (resolve e u v w) =
     (if container u \<and> 1 < length (promises w) then tl (promises w) else promises w)"
  by (simp add: resolve_def Let_def emit_def promises_goog_settle)

lemma pendingCount_resolve:
  "pendingCount (resolve e u v w) =
     (if container u \<and> 1 < length (promises w) then pendingCount w - 1 else pendingCount w)"
  by (simp add: resolve_def Let_def emit_def promises_goog_settle pendingCount_goog_settle)

lemma promises_reject:
  "promises (reject e u v w) =
     (if container u \<and> 1 < length (promises w) then tl (promises w) else promises w)"
  by (simp add: reject_def Let_def emit_def promises_goog_settle)

lemma pendingCount_reject:
  "pendingCount (reject e u v w) =
     (if container u \<and> 1 < length (promises w) then pendingCount w - 1 else pendingCount w)"
  by (simp add: reject_def Let_def emit_def promises_goog_settle pendingCount_goog_settle)

lemma promises_tick: "promises (tick e w) = promises w"
  and pendingCount_tick: "pendingCount (tick e w) = pendingCount w"
  by (simp_all add: tick_def watchdog_def Let_def emit_def)

lemma getChainedPromise_Inr:
  "promises w \<noteq> [] \<Longrightarrow> \<exists>w' u. getChainedPromise e msg w = (w', Inr u)"
  by (cases "promises w")
     (simp_all add: getChainedPromise_def Let_def emit_def tachyfont_promise_def)

lemma getChainedPromise_fields:
  assumes "getChainedPromise e msg w = (w', Inr u)"
  shows "promises w' = promises w @ [u]"
    and "pendingCount w' = pendingCount w + 1"
    and "chainedCount w' = chainedCount w + 1"
    and "heap w' = heap w @ [Pending]"
    and "promise u = length (heap w)"
    and "precedingPromise u = Some (promise (last (promises w)))"
    and "container u"
    and "unit_msg u = Some msg"
    and "promises w \<noteq> []"
  using assms
  by (cases "promises w";
      simp add: getChainedPromise_def Let_def emit_def tachyfont_promise_def split: if_splits;
      force)+

lemmas run_defs =
  start_def chainedPromises_def tachyfont_promise_def getChainedPromise_def
  resolve_def reject_def goog_settle_def emit_def tick_def watchdog_def
  promise_reportError_def FILE_ID_def PRECEDING_PROMISE_def RESOLVE_CHAINED_COUNT_def
  REJECT_CHAINED_COUNT_def LINGERING_PROMISE_def debug_build_def production_build_def
  Let_def

subsection \<open>The length of the queue\<close>

lemma queue_inv_step:
  assumes "queue_inv w" and "step e c (w, us) = Some (w', us')"
  shows "queue_inv w'"
proof (cases c)
  case (Get msg)
  with assms(2) obtain u where g: "getChainedPromise e msg w = (w', Inr u)"
    by (auto split: prod.splits sum.splits)
  show ?thesis
    using assms(1) getChainedPromise_fields(1,2)[OF g] by (simp add: queue_inv_def)
next
  case (Resolve i v)
  with assms(2) have "w' = resolve e (us ! i) v w" by (auto split: if_splits)
  then show ?thesis
    using assms(1)
    by (cases "promises w") (auto simp: queue_inv_def promises_resolve pendingCount_resolve)
next
  case (Reject i v)
  with assms(2) have "w' = reject e (us ! i) v w" by (auto split: if_splits)
  then show ?thesis
    using assms(1)
    by (cases "promises w") (auto simp: queue_inv_def promises_reject pendingCount_reject)
next
  case Tick
  with assms show ?thesis by (auto simp: queue_inv_def promises_tick pendingCount_tick)
qed

lemma queue_inv_run:
  "queue_inv (fst s) \<Longrightarrow> run e cs s = Some s' \<Longrightarrow> queue_inv (fst s')"
proof (induction cs arbitrary: s)
  case Nil
  then show ?case by simp
next
  case (Cons c cs)
  then obtain s1 where s1: "step e c s = Some s1" and r: "run e cs s1 = Some s'"
    by (auto split: option.splits)
  have "queue_inv (fst s1)"
    using queue_inv_step[of "fst s" e c "snd s" "fst s1" "snd s1"] Cons.prems(1) s1 by simp
  then show ?case using Cons.IH r by blast
qed

lemma queue_inv_start: "queue_inv (fst (start e msg))"
  by (simp add: start_def chainedPromises_def tachyfont_promise_def Let_def queue_inv_def
      promises_resolve pendingCount_resolve)

text \<open>
  C9. After the constructor and any calls of \<open>getChainedPromise\<close>, \<open>resolve\<close> and
  \<open>reject\<close> on the objects of the sequencer (each object settled as often as one
  likes, timer ticks in between), the queue is one longer than \<open>pendingCount_\<close>; it is
  never empty and \<open>pendingCount_\<close> is never negative.
\<close>

theorem queue_length_is_pendingCount_plus_one:
  assumes "run e cs (start e msg) = Some (w, us)"
  shows "int (length (promises w)) = pendingCount w + 1 \<and> promises w \<noteq> []
         \<and> 0 \<le> pendingCount w"
proof -
  have "queue_inv w" using queue_inv_run[OF queue_inv_start assms] by simp
  then show ?thesis by (cases "promises w") (auto simp: queue_inv_def)
qed

theorem queue_length_is_pendingCount_plus_one_witness:
  "run debug_build [Get ''A'', Resolve 1 Undefined, Resolve 1 Undefined, Tick, Get ''B'',
       Reject 0 Null] (start debug_build ''db'') \<noteq> None
   \<and> (case run debug_build [Get ''A'', Resolve 1 Undefined, Resolve 1 Undefined, Tick,
        Get ''B'', Reject 0 Null] (start debug_build ''db'') of
        None \<Rightarrow> False
      | Some (w, us) \<Rightarrow> length (promises w) = 1 \<and> pendingCount w = 0)"
proof -
  obtain w us where r: "run debug_build [Get ''A'', Resolve 1 Undefined, Resolve 1 Undefined,
       Tick, Get ''B'', Reject 0 Null] (start debug_build ''db'') = Some (w, us)"
    by (simp add: run_defs)
  have p: "pendingCount w = 0" using r by (auto simp: run_defs)
  from queue_length_is_pendingCount_plus_one[OF r] p r show ?thesis by simp
qed

subsection \<open>The chain of preceding promises\<close>

lemma heap_resolve: "heap (resolve e u v w) = heap (goog_settle (promise u) (Fulfilled v) w)"
  by (simp add: resolve_def Let_def emit_def)

lemma heap_reject: "heap (reject e u v w) = heap (goog_settle (promise u) (Rejected v) w)"
  by (simp add: reject_def Let_def emit_def)

lemma heap_tick: "heap (tick e w) = heap w"
  by (simp add: tick_def watchdog_def Let_def emit_def)

lemma last_tl: "1 < length xs \<Longrightarrow> last (tl xs) = last xs \<and> tl xs \<noteq> []"
  by (cases xs) auto

lemma chain_inv_start: "chain_inv (start e msg)"
  by (simp add: chain_inv_def run_defs)

lemma chain_inv_Get:
  assumes c: "chain_inv (w, us)" and g: "getChainedPromise e msg w = (w', Inr u)"
  shows "chain_inv (w', us @ [u])"
proof -
  note f = getChainedPromise_fields[OF g]
  from c have us: "us \<noteq> []" and lp: "last (promises w) = last us"
    and lh: "length (heap w) = length us" and mp: "map promise us = [0..<length us]"
    and hd: "precedingPromise (hd us) = Some 0"
    and pr: "\<And>i. 0 < i \<Longrightarrow> i < length us \<Longrightarrow> precedingPromise (us ! i) = Some (i - 1)"
    and co: "\<And>x. x \<in> set us \<Longrightarrow> container x"
    by (auto simp: chain_inv_def)
  have "promise (last us) = last (map promise us)" using us by (simp add: last_map)
  also have "\<dots> = length us - 1" using us by (simp add: mp)
  finally have pl: "promise (last us) = length us - 1" .
  have pre: "precedingPromise ((us @ [u]) ! i) = Some (i - 1)"
    if "0 < i" "i < length (us @ [u])" for i
  proof (cases "i < length us")
    case True
    then show ?thesis using pr[OF that(1)] by (simp add: nth_append)
  next
    case False
    with that have "i = length us" by simp
    then show ?thesis using f(6) lp pl by (simp add: nth_append)
  qed
  show ?thesis
    unfolding chain_inv_def
    using us f(1,4,5,7) lh mp hd co pre by (auto simp: )
qed

lemma chain_inv_step:
  assumes c: "chain_inv s" and st: "step e c s = Some s'"
  shows "chain_inv s'"
proof -
  obtain w us where s: "s = (w, us)" by (cases s)
  show ?thesis
  proof (cases c)
    case (Get msg)
    with st s obtain w' u where g: "getChainedPromise e msg w = (w', Inr u)"
      and s': "s' = (w', us @ [u])"
      by (auto split: prod.splits sum.splits)
    show ?thesis using chain_inv_Get[OF c[unfolded s] g] s' by simp
  next
    case (Resolve i v)
    with st s have s': "s' = (resolve e (us ! i) v w, us)" by (auto split: if_splits)
    show ?thesis
      using c unfolding s s' chain_inv_def
      by (auto simp: promises_resolve heap_resolve length_heap_goog_settle last_tl)
  next
    case (Reject i v)
    with st s have s': "s' = (reject e (us ! i) v w, us)" by (auto split: if_splits)
    show ?thesis
      using c unfolding s s' chain_inv_def
      by (auto simp: promises_reject heap_reject length_heap_goog_settle last_tl)
  next
    case Tick
    with st s have s': "s' = (tick e w, us)" by auto
    show ?thesis
      using c unfolding s s' chain_inv_def
      by (auto simp: promises_tick heap_tick)
  qed
qed

lemma chain_inv_run: "chain_inv s \<Longrightarrow> run e cs s = Some s' \<Longrightarrow> chain_inv s'"
proof (induction cs arbitrary: s)
  case Nil
  then show ?case by simp
next
  case (Cons c cs)
  then obtain s1 where s1: "step e c s = Some s1" and r: "run e cs s1 = Some s'"
    by (auto split: option.splits)
  show ?case using Cons.IH[OF chain_inv_step[OF Cons.prems(1) s1] r] .
qed

subsection \<open>The order of settlements\<close>

lemma settle_order_append: "settle_order (xs @ ys) = settle_order xs @ settle_order ys"
  by (induction xs rule: settle_order.induct) simp_all

lemma settle_order_reportError: "settle_order (promise_reportError e n i) = []"
  by (simp add: promise_reportError_def)

lemma settle_order_resolve:
  "settle_order (events (resolve e u v w)) =
   settle_order (events (goog_settle (promise u) (Fulfilled v) w))"
  by (simp add: resolve_def Let_def emit_def settle_order_append settle_order_reportError)

lemma settle_order_reject:
  "settle_order (events (reject e u v w)) =
   settle_order (events (goog_settle (promise u) (Rejected v) w))"
  by (simp add: reject_def Let_def emit_def settle_order_append settle_order_reportError)

lemma settle_order_tick: "settle_order (events (tick e w)) = settle_order (events w)"
  by (simp add: tick_def watchdog_def Let_def emit_def settle_order_append
      settle_order_reportError)

lemma settle_order_goog_settle:
  "settle_order (events (goog_settle h st w)) =
   settle_order (events w) @ (if h < length (heap w) \<and> heap w ! h = Pending then [h] else [])"
  by (simp add: goog_settle_def settle_order_append)

lemma heap_goog_settle:
  "heap (goog_settle h st w) =
   (if h < length (heap w) \<and> heap w ! h = Pending then (heap w)[h := st] else heap w)"
  by (simp add: goog_settle_def)

lemma order_inv_cong:
  "heap w' = heap w \<Longrightarrow> settle_order (events w') = settle_order (events w) \<Longrightarrow>
   order_inv (w', us') = order_inv (w, us)"
  by (simp add: order_inv_def)

lemma order_inv_start: "order_inv (start e msg)"
  unfolding order_inv_def
  by (rule case_prodI2, rule exI[of _ 1]) (auto simp: run_defs)

lemma order_inv_settle:
  assumes c: "chain_inv (w, us)" and o: "order_inv (w, us)"
    and i: "i < length us" and p: "waited w (us ! i)" and st: "st \<noteq> Pending"
  shows "order_inv (goog_settle (promise (us ! i)) st w, us)"
proof -
  from c have lh: "length (heap w) = length us" and mp: "map promise us = [0..<length us]"
    and hd: "precedingPromise (hd us) = Some 0"
    and pr: "\<And>j. 0 < j \<Longrightarrow> j < length us \<Longrightarrow> precedingPromise (us ! j) = Some (j - 1)"
    by (auto simp: chain_inv_def)
  have pi: "promise (us ! i) = i"
    using i mp by (metis nth_map nth_upt add_0 length_map)
  from o obtain k where k: "k \<le> length (heap w)" "settle_order (events w) = [0..<k]"
    "\<And>h. h < length (heap w) \<Longrightarrow> heap w ! h \<noteq> Pending \<longleftrightarrow> h < k"
    by (auto simp: order_inv_def)
  show ?thesis
  proof (cases "heap w ! i = Pending")
    case False
    then have "goog_settle (promise (us ! i)) st w = w" by (simp add: goog_settle_def pi)
    then show ?thesis using o by simp
  next
    case True
    have "i = k"
    proof (cases "i = 0")
      case True
      then have "precedingPromise (us ! i) = Some 0" using hd i by (simp add: hd_conv_nth)
      with p \<open>heap w ! i = Pending\<close> True show ?thesis by (simp add: waited_def)
    next
      case False
      then have "precedingPromise (us ! i) = Some (i - 1)" using pr i by simp
      with p have "heap w ! (i - 1) \<noteq> Pending" by (simp add: waited_def)
      then have "i - 1 < k" using k(3)[of "i - 1"] i lh by simp
      moreover have "\<not> i < k" using k(3)[of i] i lh True by simp
      ultimately show ?thesis using False by simp
    qed
    have "k < length (heap w)" using \<open>i = k\<close> i lh by simp
    have "settle_order (events (goog_settle i st w)) = [0..<Suc k]"
      using True i lh k(2) \<open>i = k\<close> by (simp add: settle_order_goog_settle)
    moreover have "heap (goog_settle i st w) = (heap w)[k := st]"
      using True i lh \<open>i = k\<close> by (simp add: heap_goog_settle)
    moreover have "\<forall>h<length (heap w). (heap w)[k := st] ! h \<noteq> Pending \<longleftrightarrow> h < Suc k"
    proof (intro allI impI)
      fix h assume h: "h < length (heap w)"
      show "(heap w)[k := st] ! h \<noteq> Pending \<longleftrightarrow> h < Suc k"
      proof (cases "h = k")
        case True
        then show ?thesis using h st by simp
      next
        case False
        then show ?thesis using h k(3)[OF h] by (simp add: less_Suc_eq)
      qed
    qed
    ultimately show ?thesis
      unfolding order_inv_def pi
      using \<open>k < length (heap w)\<close>
      by (auto intro!: exI[of _ "Suc k"])
  qed
qed

lemma order_inv_step:
  assumes c: "chain_inv s" and o: "order_inv s" and pa: "patient c s"
    and st: "step e c s = Some s'"
  shows "order_inv s'"
proof -
  obtain w us where s: "s = (w, us)" by (cases s)
  show ?thesis
  proof (cases c)
    case (Get msg)
    with st s obtain w' u where g: "getChainedPromise e msg w = (w', Inr u)"
      and s': "s' = (w', us @ [u])"
      by (auto split: prod.splits sum.splits)
    note f = getChainedPromise_fields[OF g]
    have ev: "settle_order (events w') = settle_order (events w)"
      using g
      by (cases "promises w")
         (auto simp: getChainedPromise_def Let_def emit_def tachyfont_promise_def
            settle_order_append split: if_splits)
    from o s obtain k where k: "k \<le> length (heap w)" "settle_order (events w) = [0..<k]"
      "\<And>h. h < length (heap w) \<Longrightarrow> heap w ! h \<noteq> Pending \<longleftrightarrow> h < k"
      by (auto simp: order_inv_def)
    have "\<forall>h<length (heap w'). heap w' ! h \<noteq> Pending \<longleftrightarrow> h < k"
      using k(1,3) by (auto simp: f(4) nth_append)
    then show ?thesis
      unfolding s' order_inv_def using k(1,2) ev f(4)
      by (auto intro!: exI[of _ k])
  next
    case (Resolve i v)
    with st s have s': "s' = (resolve e (us ! i) v w, us)" and i: "i < length us"
      by (auto split: if_splits)
    from pa Resolve s have p: "waited w (us ! i)" by simp
    have "order_inv (goog_settle (promise (us ! i)) (Fulfilled v) w, us)"
      using order_inv_settle[OF c[unfolded s] o[unfolded s] i p] by simp
    then show ?thesis
      unfolding s' using order_inv_cong[OF heap_resolve settle_order_resolve] by blast
  next
    case (Reject i v)
    with st s have s': "s' = (reject e (us ! i) v w, us)" and i: "i < length us"
      by (auto split: if_splits)
    from pa Reject s have p: "waited w (us ! i)" by simp
    have "order_inv (goog_settle (promise (us ! i)) (Rejected v) w, us)"
      using order_inv_settle[OF c[unfolded s] o[unfolded s] i p] by simp
    then show ?thesis
      unfolding s' using order_inv_cong[OF heap_reject settle_order_reject] by blast
  next
    case Tick
    with st s have s': "s' = (tick e w, us)" by auto
    show ?thesis
      unfolding s' using o[unfolded s] order_inv_cong[OF heap_tick settle_order_tick] by blast
  qed
qed

lemma order_inv_run:
  "chain_inv s \<Longrightarrow> order_inv s \<Longrightarrow> cooperative e cs s \<Longrightarrow> run e cs s = Some s' \<Longrightarrow>
   order_inv s'"
proof (induction cs arbitrary: s)
  case Nil
  then show ?case by simp
next
  case (Cons c cs)
  then obtain s1 where s1: "step e c s = Some s1" and r: "run e cs s1 = Some s'"
    by (auto split: option.splits)
  from Cons.prems(3) s1 have pa: "patient c s" and co: "cooperative e cs s1" by simp_all
  show ?case
    using Cons.IH[OF chain_inv_step[OF Cons.prems(1) s1]
        order_inv_step[OF Cons.prems(1,2) pa s1] co r] .
qed

lemma settle_at_once:
  assumes "h < length (heap w)" and "heap w ! h = Pending"
  shows "heap (goog_settle h st w) ! h = st"
    and "settle_order (events (goog_settle h st w)) = settle_order (events w) @ [h]"
  using assms by (simp_all add: heap_goog_settle settle_order_goog_settle)

text \<open>
  C1, as amended. In every run, each object returned by \<open>getChainedPromise\<close> has as
  its preceding promise the promise of the object created just before it (the first
  promise of the constructor for the first one). The sequencer does not hold a
  settlement back until the preceding promise has settled: \<open>resolve\<close> and \<open>reject\<close>,
  called with a plain value on an object whose promise is pending, settle that promise
  at once, whatever the state of its preceding promise. When every caller settles its
  object only after its preceding promise has settled, the promises settle in the order
  in which their objects were created.
\<close>

theorem settlements_follow_issuance_for_patient_callers:
  assumes "run e cs (start e msg) = Some (w, us)"
  shows "(\<forall>i. 0 < i \<and> i < length us \<longrightarrow>
            precedingPromise (us ! i) = Some (promise (us ! (i - 1))))
         \<and> (\<forall>i v. i < length us \<and> heap w ! promise (us ! i) = Pending \<longrightarrow>
              heap (resolve e (us ! i) v w) ! promise (us ! i) = Fulfilled v
              \<and> settle_order (events (resolve e (us ! i) v w))
                  = settle_order (events w) @ [promise (us ! i)]
              \<and> heap (reject e (us ! i) v w) ! promise (us ! i) = Rejected v
              \<and> settle_order (events (reject e (us ! i) v w))
                  = settle_order (events w) @ [promise (us ! i)])
         \<and> (cooperative e cs (start e msg) \<longrightarrow>
            prefix (settle_order (events w)) (map promise us))"
proof -
  have c: "chain_inv (w, us)" using chain_inv_run[OF chain_inv_start assms] .
  then have mp: "map promise us = [0..<length us]" and lh: "length (heap w) = length us"
    and pr: "\<And>j. 0 < j \<Longrightarrow> j < length us \<Longrightarrow> precedingPromise (us ! j) = Some (j - 1)"
    by (auto simp: chain_inv_def)
  have pi: "promise (us ! j) = j" if "j < length us" for j
    using that mp by (metis nth_map nth_upt add_0 length_map)
  have first: "\<forall>i. 0 < i \<and> i < length us \<longrightarrow>
            precedingPromise (us ! i) = Some (promise (us ! (i - 1)))"
  proof (intro allI impI)
    fix i assume i: "0 < i \<and> i < length us"
    then have "i - 1 < length us" by arith
    then have "promise (us ! (i - 1)) = i - 1" by (rule pi)
    then show "precedingPromise (us ! i) = Some (promise (us ! (i - 1)))"
      using pr i by simp
  qed
  have at_once: "\<forall>i v. i < length us \<and> heap w ! promise (us ! i) = Pending \<longrightarrow>
              heap (resolve e (us ! i) v w) ! promise (us ! i) = Fulfilled v
              \<and> settle_order (events (resolve e (us ! i) v w))
                  = settle_order (events w) @ [promise (us ! i)]
              \<and> heap (reject e (us ! i) v w) ! promise (us ! i) = Rejected v
              \<and> settle_order (events (reject e (us ! i) v w))
                  = settle_order (events w) @ [promise (us ! i)]"
  proof (intro allI impI)
    fix i v assume a: "i < length us \<and> heap w ! promise (us ! i) = Pending"
    then have h: "promise (us ! i) < length (heap w)" using pi lh by simp
    from a have p: "heap w ! promise (us ! i) = Pending" by simp
    show "heap (resolve e (us ! i) v w) ! promise (us ! i) = Fulfilled v
              \<and> settle_order (events (resolve e (us ! i) v w))
                  = settle_order (events w) @ [promise (us ! i)]
              \<and> heap (reject e (us ! i) v w) ! promise (us ! i) = Rejected v
              \<and> settle_order (events (reject e (us ! i) v w))
                  = settle_order (events w) @ [promise (us ! i)]"
      unfolding heap_resolve heap_reject settle_order_resolve settle_order_reject
      using settle_at_once[OF h p] by simp
  qed
  have second: "prefix (settle_order (events w)) (map promise us)"
    if co: "cooperative e cs (start e msg)"
  proof -
    have "order_inv (w, us)"
      using order_inv_run[OF chain_inv_start order_inv_start co assms] .
    then obtain k where "k \<le> length us" "settle_order (events w) = [0..<k]"
      using lh by (auto simp: order_inv_def)
    then have "map promise us = settle_order (events w) @ [k..<length us]"
      using mp by (metis le_add_diff_inverse upt_add_eq_append zero_le)
    then show ?thesis by (simp add: prefix_def)
  qed
  from first at_once second show ?thesis by blast
qed

theorem settlements_follow_issuance_for_patient_callers_witness:
  "(case run debug_build [Get ''A'', Get ''B'', Resolve 1 Undefined, Reject 2 Null]
          (start debug_build ''db'') of
     None \<Rightarrow> False
   | Some (w, us) \<Rightarrow>
       cooperative debug_build [Get ''A'', Get ''B'', Resolve 1 Undefined, Reject 2 Null]
          (start debug_build ''db'')
       \<and> map precedingPromise us = [Some 0, Some 0, Some 1]
       \<and> settle_order (events w) = [0, 1, 2]
       \<and> prefix (settle_order (events w)) (map promise us))
   \<and> (case run debug_build [Get ''A'', Get ''B''] (start debug_build ''db'') of
     None \<Rightarrow> False
   | Some (w, us) \<Rightarrow>
       length us = 3 \<and> precedingPromise (us ! 2) = Some (promise (us ! 1))
       \<and> heap w ! promise (us ! 1) = Pending
       \<and> heap w ! promise (us ! 2) = Pending
       \<and> heap (resolve debug_build (us ! 2) (Str ''done'') w) ! promise (us ! 2)
           = Fulfilled (Str ''done'')
       \<and> heap (reject debug_build (us ! 2) (Num 7) w) ! promise (us ! 2) = Rejected (Num 7)
       \<and> settle_order (events w) = [0]
       \<and> settle_order (events (resolve debug_build (us ! 2) (Str ''done'') w)) = [0, 2])"
proof -
  obtain w us where r: "run debug_build [Get ''A'', Get ''B'', Resolve 1 Undefined,
      Reject 2 Null] (start debug_build ''db'') = Some (w, us)"
    by (simp add: run_defs)
  have co: "cooperative debug_build [Get ''A'', Get ''B'', Resolve 1 Undefined, Reject 2 Null]
      (start debug_build ''db'')"
    by (simp add: run_defs waited_def)
  have v: "map precedingPromise us = [Some 0, Some 0, Some 1]"
    "settle_order (events w) = [0, 1, 2]"
    using r by (auto simp: run_defs)
  have one: "cooperative debug_build [Get ''A'', Get ''B'', Resolve 1 Undefined, Reject 2 Null]
          (start debug_build ''db'')
       \<and> map precedingPromise us = [Some 0, Some 0, Some 1]
       \<and> settle_order (events w) = [0, 1, 2]
       \<and> prefix (settle_order (events w)) (map promise us)"
    using settlements_follow_issuance_for_patient_callers[OF r] co v by simp
  obtain w' us' where r': "run debug_build [Get ''A'', Get ''B''] (start debug_build ''db'')
      = Some (w', us')"
    by (simp add: run_defs)
  have v': "length us' = 3" "heap w' ! promise (us' ! 1) = Pending"
    "heap w' ! promise (us' ! 2) = Pending" "settle_order (events w') = [0]"
    "promise (us' ! 2) = 2"
    using r' by (auto simp: run_defs)
  note t = settlements_follow_issuance_for_patient_callers[OF r']
  have link: "precedingPromise (us' ! 2) = Some (promise (us' ! 1))"
    using t v'(1) by (auto simp: numeral_2_eq_2)
  have now: "heap (resolve debug_build (us' ! 2) (Str ''done'') w') ! promise (us' ! 2)
           = Fulfilled (Str ''done'')
       \<and> heap (reject debug_build (us' ! 2) (Num 7) w') ! promise (us' ! 2) = Rejected (Num 7)
       \<and> settle_order (events (resolve debug_build (us' ! 2) (Str ''done'') w')) = [0, 2]"
  proof -
    have ao: "heap (resolve debug_build (us' ! i) v w') ! promise (us' ! i) = Fulfilled v
        \<and> settle_order (events (resolve debug_build (us' ! i) v w'))
            = settle_order (events w') @ [promise (us' ! i)]
        \<and> heap (reject debug_build (us' ! i) v w') ! promise (us' ! i) = Rejected v"
      if "i < length us'" "heap w' ! promise (us' ! i) = Pending" for i v
      using t that by blast
    have two: "(2::nat) < length us'" using v'(1) by simp
    show ?thesis
      using ao[OF two v'(3), of "Str ''done''"] ao[OF two v'(3), of "Num 7"] v'(4,5)
      by simp
  qed
  have other: "length us' = 3 \<and> precedingPromise (us' ! 2) = Some (promise (us' ! 1))
       \<and> heap w' ! promise (us' ! 1) = Pending
       \<and> heap w' ! promise (us' ! 2) = Pending
       \<and> heap (resolve debug_build (us' ! 2) (Str ''done'') w') ! promise (us' ! 2)
           = Fulfilled (Str ''done'')
       \<and> heap (reject debug_build (us' ! 2) (Num 7) w') ! promise (us' ! 2) = Rejected (Num 7)
       \<and> settle_order (events w') = [0]
       \<and> settle_order (events (resolve debug_build (us' ! 2) (Str ''done'') w')) = [0, 2]"
    using link now v'(1,2,3,4) by blast
  show ?thesis unfolding r r' option.case prod.case using one other by (rule conjI)
qed

text \<open>
  C1 as stated fails: \<open>A\<close> and \<open>B\<close> are issued in this order, the caller of \<open>B\<close>
  resolves first, and the promise of \<open>B\<close> (handle 2) settles before the promise of
  \<open>A\<close> (handle 1).
\<close>

theorem early_settle_counterexample:
  "map_option (settle_order \<circ> events \<circ> fst)
     (run debug_build [Get ''A'', Get ''B'', Resolve 2 Undefined, Resolve 1 Undefined]
        (start debug_build ''db''))
     = Some [0, 2, 1]
   \<and> map_option (map promise \<circ> snd)
     (run debug_build [Get ''A'', Get ''B'', Resolve 2 Undefined, Resolve 1 Undefined]
        (start debug_build ''db''))
     = Some [0, 1, 2]"
  by (simp add: run_defs)

subsection \<open>Issuing and settling\<close>

lemma heap_goog_settle_settled:
  "\<not> (h < length (heap w) \<and> heap w ! h = Pending) \<Longrightarrow> goog_settle h st w = w"
  by (auto simp: goog_settle_def)

lemma getChainedPromise_frame:
  assumes "getChainedPromise e msg w = (w', Inr u)"
  shows "seq_msg w' = seq_msg w"
    and "intervalActive w' = intervalActive w"
    and "timerReportCount w' = timerReportCount w"
    and "events w' = events w @
           (if goog_DEBUG e
            then [Log FINER (seq_msg w @ msg @ '': increase pending count to '')
                    (pendingCount w + 1)]
            else [])"
  using assms
  by (cases "promises w";
      simp add: getChainedPromise_def Let_def emit_def tachyfont_promise_def split: if_splits;
      force)+

text \<open>
  C6. On a sequencer after its constructor and any calls, \<open>getChainedPromise\<close> returns
  a new object; \<open>chainedCount_\<close> and \<open>pendingCount_\<close> have each grown by one; the
  preceding promise of the new object is the promise of the last queue entry at the
  time of the call; the new object is appended to the queue, whose earlier entries are
  as they were, and the promises that existed keep their states. The other fields of the
  sequencer do not change (a debug build logs the new count).
\<close>

theorem getChainedPromise_issues_one_unit:
  assumes "run e cs (start e msg0) = Some (w, us)"
  shows "\<exists>w' u. getChainedPromise e msg w = (w', Inr u)
           \<and> chainedCount w' = chainedCount w + 1
           \<and> pendingCount w' = pendingCount w + 1
           \<and> precedingPromise u = Some (promise (last (promises w)))
           \<and> promises w' = promises w @ [u]
           \<and> last (promises w') = u
           \<and> promise u = length (heap w)
           \<and> heap w' = heap w @ [Pending]
           \<and> container u \<and> unit_msg u = Some msg
           \<and> seq_msg w' = seq_msg w
           \<and> intervalActive w' = intervalActive w
           \<and> timerReportCount w' = timerReportCount w
           \<and> events w' = events w @
                (if goog_DEBUG e
                 then [Log FINER (seq_msg w @ msg @ '': increase pending count to '')
                         (pendingCount w + 1)]
                 else [])"
proof -
  have "queue_inv w" using queue_inv_run[OF queue_inv_start assms] by simp
  then have "promises w \<noteq> []" by (simp add: queue_inv_def)
  then obtain w' u where g: "getChainedPromise e msg w = (w', Inr u)"
    using getChainedPromise_Inr by blast
  show ?thesis
    using g getChainedPromise_fields[OF g] getChainedPromise_frame[OF g] by simp
qed

theorem getChainedPromise_issues_one_unit_witness:
  "case run debug_build [Get ''A'', Resolve 1 Undefined] (start debug_build ''db'') of
     None \<Rightarrow> False
   | Some (w, us) \<Rightarrow>
       (\<exists>w' u. getChainedPromise debug_build ''B'' w = (w', Inr u)
          \<and> pendingCount w' = 1 \<and> chainedCount w' = 2
          \<and> precedingPromise u = Some 1 \<and> promise u = 2 \<and> length (promises w') = 2)"
proof -
  obtain w us where r: "run debug_build [Get ''A'', Resolve 1 Undefined]
      (start debug_build ''db'') = Some (w, us)"
    by (simp add: run_defs)
  have v: "pendingCount w = 0" "chainedCount w = 1" "length (heap w) = 2"
    "map promise (promises w) = [1]"
    using r by (auto simp: run_defs)
  from v(4) have l: "promise (last (promises w)) = 1" "length (promises w) = 1"
    by (cases "promises w"; auto)+
  from getChainedPromise_issues_one_unit[OF r, of "''B''"]
  obtain w' u where g: "getChainedPromise debug_build ''B'' w = (w', Inr u)"
    "chainedCount w' = chainedCount w + 1" "pendingCount w' = pendingCount w + 1"
    "precedingPromise u = Some (promise (last (promises w)))"
    "promises w' = promises w @ [u]" "promise u = length (heap w)"
    by blast
  have "pendingCount w' = 1 \<and> chainedCount w' = 2 \<and> precedingPromise u = Some 1
        \<and> promise u = 2 \<and> length (promises w') = 2"
    using g v l by simp
  with g(1) show ?thesis unfolding r by auto
qed

text \<open>
  C2 as stated fails: \<open>A\<close> and \<open>B\<close> are issued and \<open>A\<close> is resolved, which leaves
  \<open>pendingCount_\<close> at 1 and the objects with handles 1 and 2 in the queue; resolving
  \<open>A\<close> a second time brings \<open>pendingCount_\<close> to 0 and removes one more entry.
\<close>

theorem second_resolve_counterexample:
  "map_option (pendingCount \<circ> fst)
     (run debug_build [Get ''A'', Get ''B'', Resolve 1 Undefined] (start debug_build ''db''))
     = Some 1
   \<and> map_option (pendingCount \<circ> fst)
     (run debug_build [Get ''A'', Get ''B'', Resolve 1 Undefined, Resolve 1 Undefined]
        (start debug_build ''db''))
     = Some 0
   \<and> map_option (map promise \<circ> promises \<circ> fst)
     (run debug_build [Get ''A'', Get ''B'', Resolve 1 Undefined] (start debug_build ''db''))
     = Some [1, 2]
   \<and> map_option (map promise \<circ> promises \<circ> fst)
     (run debug_build [Get ''A'', Get ''B'', Resolve 1 Undefined, Resolve 1 Undefined]
        (start debug_build ''db''))
     = Some [2]"
  by (simp add: run_defs)

text \<open>
  C2, as amended. \<open>resolve\<close> on an object of the sequencer whose promise is already
  settled leaves the outcome of every promise as it is, and runs the bookkeeping of the
  queue again: with more than one entry in the queue, it decrements \<open>pendingCount_\<close>
  once more and removes one more entry from the head; with a single entry in the queue,
  it leaves \<open>pendingCount_\<close> and the queue unchanged.
\<close>

theorem second_resolve_runs_bookkeeping_again:
  assumes "container u" and "promise u < length (heap w)" and "heap w ! promise u \<noteq> Pending"
  shows "heap (resolve e u v w) = heap w
         \<and> (1 < length (promises w) \<longrightarrow>
              pendingCount (resolve e u v w) = pendingCount w - 1
              \<and> promises (resolve e u v w) = tl (promises w))
         \<and> (length (promises w) \<le> 1 \<longrightarrow>
              pendingCount (resolve e u v w) = pendingCount w
              \<and> promises (resolve e u v w) = promises w)"
  using assms
  by (auto simp: heap_resolve promises_resolve pendingCount_resolve heap_goog_settle_settled)

theorem second_resolve_runs_bookkeeping_again_witness:
  "(case run debug_build [Get ''A'', Get ''B'', Resolve 1 Undefined]
          (start debug_build ''db'') of
     None \<Rightarrow> False
   | Some (w, us) \<Rightarrow>
       container (us ! 1) \<and> promise (us ! 1) < length (heap w)
       \<and> heap w ! promise (us ! 1) \<noteq> Pending
       \<and> heap (resolve debug_build (us ! 1) Undefined w) = heap w
       \<and> length (promises w) = 2
       \<and> pendingCount w = 1
       \<and> pendingCount (resolve debug_build (us ! 1) Undefined w) = 0
       \<and> promises (resolve debug_build (us ! 1) Undefined w) = tl (promises w))
   \<and> (case run debug_build [Get ''A'', Resolve 1 Undefined] (start debug_build ''db'') of
     None \<Rightarrow> False
   | Some (w, us) \<Rightarrow>
       container (us ! 1) \<and> promise (us ! 1) < length (heap w)
       \<and> heap w ! promise (us ! 1) \<noteq> Pending
       \<and> heap (resolve debug_build (us ! 1) Undefined w) = heap w
       \<and> length (promises w) = 1
       \<and> pendingCount w = 0
       \<and> pendingCount (resolve debug_build (us ! 1) Undefined w) = 0
       \<and> promises (resolve debug_build (us ! 1) Undefined w) = promises w)"
proof -
  obtain w us where r: "run debug_build [Get ''A'', Get ''B'', Resolve 1 Undefined]
      (start debug_build ''db'') = Some (w, us)"
    by (simp add: run_defs)
  have v: "container (us ! 1)" "promise (us ! 1) < length (heap w)"
    "heap w ! promise (us ! 1) \<noteq> Pending" "length (promises w) = 2" "pendingCount w = 1"
    using r by (auto simp: run_defs)
  obtain w' us' where r': "run debug_build [Get ''A'', Resolve 1 Undefined]
      (start debug_build ''db'') = Some (w', us')"
    by (simp add: run_defs)
  have v': "container (us' ! 1)" "promise (us' ! 1) < length (heap w')"
    "heap w' ! promise (us' ! 1) \<noteq> Pending" "length (promises w') = 1" "pendingCount w' = 0"
    using r' by (auto simp: run_defs)
  from second_resolve_runs_bookkeeping_again[OF v(1,2,3), of debug_build Undefined]
    second_resolve_runs_bookkeeping_again[OF v'(1,2,3), of debug_build Undefined] v v'
  show ?thesis unfolding r r' by auto
qed

text \<open>
  C4, as amended. \<open>resolve\<close> and \<open>reject\<close> on an object of the sequencer remove at
  most one entry from the head of the queue: with more than one entry in the queue they
  remove the head and decrement \<open>pendingCount_\<close> by exactly one, otherwise they change
  neither. A queue that is not empty stays so, and its last entry stays its last entry:
  the entry that is never removed is the last one, not the first promise of the
  constructor.
\<close>

theorem settle_retires_head:
  assumes "container u"
  shows "(1 < length (promises w) \<longrightarrow>
            promises (resolve e u v w) = tl (promises w)
            \<and> pendingCount (resolve e u v w) = pendingCount w - 1
            \<and> promises (reject e u v w) = tl (promises w)
            \<and> pendingCount (reject e u v w) = pendingCount w - 1)
         \<and> (length (promises w) \<le> 1 \<longrightarrow>
            promises (resolve e u v w) = promises w
            \<and> pendingCount (resolve e u v w) = pendingCount w
            \<and> promises (reject e u v w) = promises w
            \<and> pendingCount (reject e u v w) = pendingCount w)
         \<and> (promises w \<noteq> [] \<longrightarrow>
            promises (resolve e u v w) \<noteq> []
            \<and> last (promises (resolve e u v w)) = last (promises w)
            \<and> promises (reject e u v w) \<noteq> []
            \<and> last (promises (reject e u v w)) = last (promises w))"
proof -
  have "promises w \<noteq> [] \<Longrightarrow> 1 < length (promises w) \<Longrightarrow>
        tl (promises w) \<noteq> [] \<and> last (tl (promises w)) = last (promises w)"
    by (cases "promises w") (auto)
  then show ?thesis
    using assms
    by (auto simp: promises_resolve pendingCount_resolve promises_reject pendingCount_reject)
qed

theorem settle_retires_head_witness:
  "(case run debug_build [Get ''A'', Get ''B''] (start debug_build ''db'') of
     None \<Rightarrow> False
   | Some (w, us) \<Rightarrow>
       container (us ! 2) \<and> length (promises w) = 3
       \<and> promises (reject debug_build (us ! 2) Null w) = tl (promises w)
       \<and> pendingCount (reject debug_build (us ! 2) Null w) = 1
       \<and> last (promises (reject debug_build (us ! 2) Null w)) = us ! 2)
   \<and> (case run debug_build [] (start debug_build ''db'') of
     None \<Rightarrow> False
   | Some (w, us) \<Rightarrow>
       container (us ! 0) \<and> length (promises w) = 1
       \<and> promises (resolve debug_build (us ! 0) Undefined w) = promises w
       \<and> pendingCount (resolve debug_build (us ! 0) Undefined w) = 0)"
proof -
  obtain w us where r: "run debug_build [Get ''A'', Get ''B''] (start debug_build ''db'')
      = Some (w, us)"
    by (simp add: run_defs)
  have v: "container (us ! 2)" "length (promises w) = 3" "pendingCount w = 2"
    "last (promises w) = us ! 2"
    using r by (auto simp: run_defs)
  obtain w' us' where r': "run debug_build [] (start debug_build ''db'') = Some (w', us')"
    by (simp add: run_defs)
  have v': "container (us' ! 0)" "length (promises w') = 1" "pendingCount w' = 0"
    using r' by (auto simp: run_defs)
  from settle_retires_head[OF v(1), of w debug_build Null]
    settle_retires_head[OF v'(1), of w' debug_build Undefined] v v'
  show ?thesis unfolding r r' by auto
qed

text \<open>
  C4 as stated fails: after the constructor the queue holds the first promise (handle
  0); once \<open>A\<close> is issued and resolved, the queue holds \<open>A\<close> alone and the first
  promise is gone. A further \<open>reject\<close> on \<open>A\<close> finds one entry in the queue and
  does not decrement \<open>pendingCount_\<close>.
\<close>

theorem sentinel_evicted_counterexample:
  "promises (fst (start debug_build ''db'')) =
     [\<lparr>promise = 0, precedingPromise = Some 0, container = True, unit_msg = None\<rparr>]
   \<and> map_option (promises \<circ> fst)
       (run debug_build [Get ''A'', Resolve 1 Undefined] (start debug_build ''db''))
     = Some [\<lparr>promise = 1, precedingPromise = Some 0, container = True,
               unit_msg = Some ''A''\<rparr>]
   \<and> map_option (pendingCount \<circ> fst)
       (run debug_build [Get ''A'', Resolve 1 Undefined] (start debug_build ''db''))
     = Some 0
   \<and> map_option (pendingCount \<circ> fst)
       (run debug_build [Get ''A'', Resolve 1 Undefined, Reject 1 Undefined]
          (start debug_build ''db''))
     = Some 0"
  by (simp add: run_defs)

subsection \<open>Counting issued and settled objects\<close>

lemma run_append:
  "run e (cs @ ds) s = (case run e cs s of None \<Rightarrow> None | Some s' \<Rightarrow> run e ds s')"
  by (induction cs arbitrary: s) (auto split: option.splits)

lemma gets_append: "gets (cs @ ds) = gets cs + gets ds"
  by (induction cs rule: gets.induct) simp_all

lemma settles_append: "settles (cs @ ds) = settles cs @ settles ds"
  by (induction cs rule: settles.induct) simp_all

lemma step_prefix: "step e c (w, us) = Some (w', us') \<Longrightarrow> prefix us us'"
  by (cases c) (auto split: prod.splits sum.splits if_splits)

lemma run_prefix: "run e cs s = Some s' \<Longrightarrow> prefix (snd s) (snd s')"
proof (induction cs arbitrary: s)
  case Nil
  then show ?case by simp
next
  case (Cons c cs)
  then obtain s1 where s1: "step e c s = Some s1" and r: "run e cs s1 = Some s'"
    by (auto split: option.splits)
  have "prefix (snd s) (snd s1)"
    using step_prefix[of e c "fst s" "snd s" "fst s1" "snd s1"] s1 by simp
  then show ?case using Cons.IH[OF r] by (rule prefix_order.trans)
qed

lemma few_settled:
  assumes "distinct xs" and "set xs \<subseteq> {1..n}" and "i \<in> {1..n}" and "i \<notin> set xs"
  shows "length xs < n"
proof -
  have "set xs \<subset> {1..n}" using assms by auto
  then have "card (set xs) < card {1..n}" by (intro psubset_card_mono) simp_all
  then show ?thesis using assms(1) by (simp add: distinct_card)
qed

lemma pendingCount_run:
  "run e cs (start e msg) = Some (w, us) \<Longrightarrow> distinct (settles cs) \<Longrightarrow>
   0 \<notin> set (settles cs) \<Longrightarrow>
   length us = Suc (gets cs) \<and> set (settles cs) \<subseteq> {1..gets cs}
   \<and> pendingCount w = int (gets cs) - int (length (settles cs))"
proof (induction cs arbitrary: w us rule: rev_induct)
  case Nil
  then show ?case by (auto simp: run_defs)
next
  case (snoc c cs)
  from snoc.prems(1) obtain w1 us1 where r1: "run e cs (start e msg) = Some (w1, us1)"
    and st: "step e c (w1, us1) = Some (w, us)"
    by (auto simp: run_append split: option.splits)
  from snoc.prems(2,3) have d: "distinct (settles cs)" "0 \<notin> set (settles cs)"
    by (simp_all add: settles_append)
  note ih = snoc.IH[OF r1 d]
  have q: "queue_inv w1" using queue_inv_run[OF queue_inv_start r1] by simp
  have ch: "chain_inv (w1, us1)" using chain_inv_run[OF chain_inv_start r1] .
  have settle: "length us1 = Suc (gets (cs @ [c])) \<and> set (settles (cs @ [c])) \<subseteq> {1..gets (cs @ [c])}
      \<and> (if container (us1 ! i) \<and> 1 < length (promises w1) then pendingCount w1 - 1
          else pendingCount w1)
        = int (gets (cs @ [c])) - int (length (settles (cs @ [c])))"
    if i: "i < length us1" and g: "gets [c] = 0" and s: "settles [c] = [i]" for i
  proof -
    from snoc.prems(2,3) s have i0: "i \<noteq> 0" and inew: "i \<notin> set (settles cs)"
      by (auto simp: settles_append)
    have irange: "i \<in> {1..gets cs}" using i i0 ih by simp
    have "length (settles cs) < gets cs"
      using few_settled[OF d(1) _ irange inew] ih by simp
    then have "1 \<le> pendingCount w1" using ih by simp
    then have "1 < length (promises w1)" using q by (simp add: queue_inv_def)
    moreover have "container (us1 ! i)" using ch i by (simp add: chain_inv_def)
    ultimately show ?thesis
      using ih irange g s by (simp add: gets_append settles_append)
  qed
  show ?case
  proof (cases c)
    case (Get m)
    with st obtain u where g: "getChainedPromise e m w1 = (w, Inr u)" and us: "us = us1 @ [u]"
      by (auto split: prod.splits sum.splits)
    show ?thesis
      using ih getChainedPromise_fields(2)[OF g] us Get
      by (auto simp: gets_append settles_append)
  next
    case (Resolve i v)
    with st have w: "w = resolve e (us1 ! i) v w1" and us: "us = us1" and i: "i < length us1"
      by (auto split: if_splits)
    show ?thesis
      using settle[OF i] Resolve unfolding w us pendingCount_resolve by simp
  next
    case (Reject i v)
    with st have w: "w = reject e (us1 ! i) v w1" and us: "us = us1" and i: "i < length us1"
      by (auto split: if_splits)
    show ?thesis
      using settle[OF i] Reject unfolding w us pendingCount_reject by simp
  next
    case Tick
    with st have "w = tick e w1" "us = us1" by auto
    then show ?thesis using ih Tick by (simp add: gets_append settles_append pendingCount_tick)
  qed
qed

text \<open>
  C5. After any calls in which every settle call is on an object returned by
  \<open>getChainedPromise\<close> and no object is settled twice, in whatever order the objects
  are settled and however the settle calls are interleaved with the issuing calls,
  \<open>pendingCount_\<close> is the number of objects issued minus the number settled: 0 when
  all M issued objects are settled, 1 when M - 1 of them are.
\<close>

theorem pendingCount_is_issued_minus_settled:
  assumes "run e cs (start e msg) = Some (w, us)"
    and "distinct (settles cs)" and "0 \<notin> set (settles cs)"
  shows "pendingCount w = int (gets cs) - int (length (settles cs))
         \<and> (length (settles cs) = gets cs \<longrightarrow> pendingCount w = 0)
         \<and> (Suc (length (settles cs)) = gets cs \<longrightarrow> pendingCount w = 1)"
  using pendingCount_run[OF assms] by auto

theorem pendingCount_is_issued_minus_settled_witness:
  "(case run debug_build [Get ''A'', Get ''B'', Reject 2 Null, Get ''C'', Resolve 1 Undefined]
          (start debug_build ''db'') of
     None \<Rightarrow> False
   | Some (w, us) \<Rightarrow>
       distinct (settles [Get ''A'', Get ''B'', Reject 2 Null, Get ''C'', Resolve 1 Undefined])
       \<and> 0 \<notin> set (settles [Get ''A'', Get ''B'', Reject 2 Null, Get ''C'',
                              Resolve 1 Undefined])
       \<and> gets [Get ''A'', Get ''B'', Reject 2 Null, Get ''C'', Resolve 1 Undefined] = 3
       \<and> length (settles [Get ''A'', Get ''B'', Reject 2 Null, Get ''C'',
                            Resolve 1 Undefined]) = 2
       \<and> pendingCount w = 1)
   \<and> (case run debug_build [Get ''A'', Get ''B'', Reject 2 Null, Resolve 1 Undefined]
          (start debug_build ''db'') of
     None \<Rightarrow> False
   | Some (w, us) \<Rightarrow>
       distinct (settles [Get ''A'', Get ''B'', Reject 2 Null, Resolve 1 Undefined])
       \<and> 0 \<notin> set (settles [Get ''A'', Get ''B'', Reject 2 Null, Resolve 1 Undefined])
       \<and> gets [Get ''A'', Get ''B'', Reject 2 Null, Resolve 1 Undefined] = 2
       \<and> length (settles [Get ''A'', Get ''B'', Reject 2 Null, Resolve 1 Undefined]) = 2
       \<and> pendingCount w = 0)"
proof -
  obtain w us where r: "run debug_build [Get ''A'', Get ''B'', Reject 2 Null, Get ''C'',
      Resolve 1 Undefined] (start debug_build ''db'') = Some (w, us)"
    by (simp add: run_defs)
  have d: "distinct (settles [Get ''A'', Get ''B'', Reject 2 Null, Get ''C'',
      Resolve 1 Undefined])"
    "0 \<notin> set (settles [Get ''A'', Get ''B'', Reject 2 Null, Get ''C'', Resolve 1 Undefined])"
    by simp_all
  obtain w' us' where r': "run debug_build [Get ''A'', Get ''B'', Reject 2 Null,
      Resolve 1 Undefined] (start debug_build ''db'') = Some (w', us')"
    by (simp add: run_defs)
  have d': "distinct (settles [Get ''A'', Get ''B'', Reject 2 Null, Resolve 1 Undefined])"
    "0 \<notin> set (settles [Get ''A'', Get ''B'', Reject 2 Null, Resolve 1 Undefined])"
    by simp_all
  from pendingCount_is_issued_minus_settled[OF r d]
    pendingCount_is_issued_minus_settled[OF r' d']
  show ?thesis unfolding r r' by simp
qed

subsection \<open>The preceding promise of the objects of a sequencer\<close>

text \<open>
  C3 as stated fails: the first promise, which the constructor puts in the queue, has a
  preceding promise, namely its own promise (handle 0).
\<close>

theorem first_promise_precedes_itself_counterexample:
  "map precedingPromise (promises (chainedPromises debug_build ''db'')) = [Some 0]
   \<and> map promise (promises (chainedPromises debug_build ''db'')) = [0]"
  by (simp add: run_defs)

text \<open>
  C3, as amended. No object created by a sequencer has an undefined preceding promise:
  the preceding promise of the first promise of the constructor is its own promise, and
  every object returned by \<open>getChainedPromise\<close> has the promise of the last queue entry
  at the time of the call; \<open>getPrecedingPromise\<close> on these objects returns it and
  reports nothing. The preceding promise is undefined only for an object that comes
  straight from the constructor of \<open>tachyfont.promise\<close>.
\<close>

theorem sequencer_objects_have_preceding_promise:
  assumes "run e cs (start e msg) = Some (w, us)"
  shows "us \<noteq> [] \<and> promises (chainedPromises e msg) = [hd us]
         \<and> precedingPromise (hd us) = Some (promise (hd us))
         \<and> (\<forall>u\<in>set us. precedingPromise u \<noteq> None
               \<and> getPrecedingPromise e u w = (w, precedingPromise u))
         \<and> (\<forall>m w' u. getChainedPromise e m w = (w', Inr u) \<longrightarrow>
               precedingPromise u = Some (promise (last (promises w))))
         \<and> (\<forall>c m w0. precedingPromise (snd (tachyfont_promise c m w0)) = None)"
proof -
  have c: "chain_inv (w, us)" using chain_inv_run[OF chain_inv_start assms] .
  then have ne: "us \<noteq> []" and mp: "map promise us = [0..<length us]"
    and h0: "precedingPromise (hd us) = Some 0"
    and pr: "\<And>j. 0 < j \<Longrightarrow> j < length us \<Longrightarrow> precedingPromise (us ! j) = Some (j - 1)"
    by (auto simp: chain_inv_def)
  have "prefix (snd (start e msg)) us" using run_prefix[OF assms] by simp
  moreover have s0: "snd (start e msg) = promises (chainedPromises e msg)"
    "length (promises (chainedPromises e msg)) = 1"
    by (simp_all add: run_defs)
  ultimately have first: "promises (chainedPromises e msg) = [hd us]"
    by (cases "promises (chainedPromises e msg)") (auto simp: prefix_def)
  have "promise (hd us) = hd (map promise us)" using ne by (simp add: hd_map)
  then have p0: "promise (hd us) = 0" using ne mp by (simp add: upt_conv_Cons)
  have all: "\<forall>u\<in>set us. precedingPromise u \<noteq> None
               \<and> getPrecedingPromise e u w = (w, precedingPromise u)"
  proof
    fix u assume "u \<in> set us"
    then obtain j where j: "j < length us" "u = us ! j" by (auto simp: in_set_conv_nth)
    have "precedingPromise u \<noteq> None"
    proof (cases "j = 0")
      case True
      then show ?thesis using j h0 ne by (simp add: hd_conv_nth)
    next
      case False
      then show ?thesis using j pr[of j] by simp
    qed
    then show "precedingPromise u \<noteq> None
               \<and> getPrecedingPromise e u w = (w, precedingPromise u)"
      by (auto simp: getPrecedingPromise_def)
  qed
  have issue: "\<forall>m w' u. getChainedPromise e m w = (w', Inr u) \<longrightarrow>
               precedingPromise u = Some (promise (last (promises w)))"
    using getChainedPromise_fields(6) by blast
  have alone: "\<forall>c m w0. precedingPromise (snd (tachyfont_promise c m w0)) = None"
    by (simp add: tachyfont_promise_def)
  from ne first h0 p0 all issue alone show ?thesis by simp
qed

theorem sequencer_objects_have_preceding_promise_witness:
  "case run debug_build [Get ''A'', Resolve 1 Undefined, Get ''B'']
          (start debug_build ''db'') of
     None \<Rightarrow> False
   | Some (w, us) \<Rightarrow>
       length us = 3 \<and> map precedingPromise us = [Some 0, Some 0, Some 1]
       \<and> precedingPromise (hd us) = Some (promise (hd us))
       \<and> (\<forall>u\<in>set us. precedingPromise u \<noteq> None)
       \<and> (case getChainedPromise debug_build ''C'' w of
             (w', Inl x) \<Rightarrow> False
           | (w', Inr u) \<Rightarrow> precedingPromise u = Some 2 \<and> promise (last (promises w)) = 2)"
proof -
  obtain w us where r: "run debug_build [Get ''A'', Resolve 1 Undefined, Get ''B'']
      (start debug_build ''db'') = Some (w, us)"
    by (simp add: run_defs)
  have v: "length us = 3" "map precedingPromise us = [Some 0, Some 0, Some 1]"
    "map promise (promises w) = [1, 2]"
    using r by (auto simp: run_defs)
  from v(3) have l: "promise (last (promises w)) = 2" "promises w \<noteq> []"
    by (cases "promises w"; auto)+
  obtain w' u where g: "getChainedPromise debug_build ''C'' w = (w', Inr u)"
    using getChainedPromise_Inr[OF l(2)] by blast
  from sequencer_objects_have_preceding_promise[OF r] v l g show ?thesis
    unfolding r by simp
qed

subsection \<open>The watchdog\<close>

lemma tick_idle: "\<not> intervalActive w \<Longrightarrow> tick e w = w"
  by (simp add: tick_def)

lemma tick_zero: "intervalActive w \<Longrightarrow> pendingCount w = 0 \<Longrightarrow> tick e w = w\<lparr>timerReportCount := 0\<rparr>"
  by (simp add: tick_def watchdog_def)

lemma tick_nonzero:
  assumes "intervalActive w" and "pendingCount w \<noteq> 0"
  shows "timerReportCount (tick e w) = timerReportCount w + 1"
    and "intervalActive (tick e w) \<longleftrightarrow> timerReportCount w + 1 < 10"
    and "filter is_warning (events (tick e w)) =
           filter is_warning (events w) @
           (if goog_DEBUG e
            then [Log WARNING (seq_msg w @ ''lingering pending count: '') (pendingCount w)]
            else [])"
    and "filter is_lingering (events (tick e w)) =
           filter is_lingering (events w) @
           (if 10 \<le> timerReportCount w + 1 \<and> Reporter_isReady e
            then [ReportError ''ETP04'' ''000''
                    (Str (seq_msg w @ ''gave up checking for pending count''))]
            else [])"
    and "events (tick e w) =
           events w @
           (if goog_DEBUG e
            then [Log WARNING (seq_msg w @ ''lingering pending count: '') (pendingCount w)]
            else []) @
           (if 10 \<le> timerReportCount w + 1
            then promise_reportError e LINGERING_PROMISE
                   (Str (seq_msg w @ ''gave up checking for pending count'')) @ [ClearInterval]
            else [])"
  using assms
  by (auto simp: tick_def watchdog_def Let_def emit_def promise_reportError_def
      FILE_ID_def LINGERING_PROMISE_def)

lemma lingering_resolve:
  "filter is_lingering (events (resolve e u v w)) = filter is_lingering (events w)"
  by (simp add: resolve_def Let_def emit_def goog_settle_def promise_reportError_def
      FILE_ID_def LINGERING_PROMISE_def RESOLVE_CHAINED_COUNT_def)

lemma lingering_reject:
  "filter is_lingering (events (reject e u v w)) = filter is_lingering (events w)"
  by (simp add: reject_def Let_def emit_def goog_settle_def promise_reportError_def
      FILE_ID_def LINGERING_PROMISE_def REJECT_CHAINED_COUNT_def)

lemma timer_resolve:
  "timerReportCount (resolve e u v w) = timerReportCount w"
  "intervalActive (resolve e u v w) = intervalActive w"
  by (simp_all add: resolve_def Let_def emit_def goog_settle_def)

lemma timer_reject:
  "timerReportCount (reject e u v w) = timerReportCount w"
  "intervalActive (reject e u v w) = intervalActive w"
  by (simp_all add: reject_def Let_def emit_def goog_settle_def)

lemma timer_inv_start: "timer_inv e (fst (start e msg))"
  by (simp add: timer_inv_def run_defs)

lemma timer_inv_tick: assumes "timer_inv e w" shows "timer_inv e (tick e w)"
proof (cases "intervalActive w")
  case False
  then show ?thesis using assms by (simp add: tick_idle)
next
  case True
  show ?thesis
  proof (cases "pendingCount w = 0")
    case True
    with \<open>intervalActive w\<close> assms show ?thesis by (simp add: tick_zero timer_inv_def)
  next
    case False
    note t = tick_nonzero(1,2,3,4)[OF True False, of e]
    show ?thesis
      using assms True unfolding timer_inv_def t by auto
  qed
qed

lemma timer_inv_step:
  assumes "timer_inv e w" and "step e c (w, us) = Some (w', us')"
  shows "timer_inv e w'"
proof (cases c)
  case (Get m)
  with assms(2) obtain u where g: "getChainedPromise e m w = (w', Inr u)"
    by (auto split: prod.splits sum.splits)
  have "filter is_lingering (events w') = filter is_lingering (events w)"
    using getChainedPromise_frame(4)[OF g] by simp
  then show ?thesis
    using assms(1) getChainedPromise_frame(2,3)[OF g] by (simp add: timer_inv_def)
next
  case (Resolve i v)
  with assms(2) have "w' = resolve e (us ! i) v w" by (auto split: if_splits)
  then show ?thesis using assms(1) by (simp add: timer_inv_def lingering_resolve timer_resolve)
next
  case (Reject i v)
  with assms(2) have "w' = reject e (us ! i) v w" by (auto split: if_splits)
  then show ?thesis using assms(1) by (simp add: timer_inv_def lingering_reject timer_reject)
next
  case Tick
  with assms(2) have "w' = tick e w" by auto
  then show ?thesis using timer_inv_tick[OF assms(1)] by simp
qed

lemma timer_inv_run:
  "timer_inv e (fst s) \<Longrightarrow> run e cs s = Some s' \<Longrightarrow> timer_inv e (fst s')"
proof (induction cs arbitrary: s)
  case Nil
  then show ?case by simp
next
  case (Cons c cs)
  then obtain s1 where s1: "step e c s = Some s1" and r: "run e cs s1 = Some s'"
    by (auto split: option.splits)
  have "timer_inv e (fst s1)"
    using timer_inv_step[of e "fst s" c "snd s" "fst s1" "snd s1"] Cons.prems(1) s1 by simp
  then show ?case using Cons.IH r by blast
qed

text \<open>
  C7, as amended. A tick that finds \<open>pendingCount_\<close> nonzero increments the count of
  the watchdog and, in a debug build only, logs one warning; a tick that finds it zero
  sets the count to zero. The tick that brings the count to 10 hands the lingering
  promise to the error reporter (which passes it to \<open>tachyfont.Reporter\<close> when that is
  ready) and cancels the interval; after that a tick does nothing. So in every run the
  lingering promise is reported at most once, and exactly once when the interval has
  been cancelled and the reporter was ready.
\<close>

theorem watchdog_counts_and_gives_up_once:
  shows "(intervalActive w \<and> pendingCount w \<noteq> 0 \<longrightarrow>
            timerReportCount (tick e w) = timerReportCount w + 1
            \<and> filter is_warning (events (tick e w)) =
                filter is_warning (events w) @
                (if goog_DEBUG e
                 then [Log WARNING (seq_msg w @ ''lingering pending count: '') (pendingCount w)]
                 else [])
            \<and> (intervalActive (tick e w) \<longleftrightarrow> timerReportCount w + 1 < 10)
            \<and> events (tick e w) =
                events w @
                (if goog_DEBUG e
                 then [Log WARNING (seq_msg w @ ''lingering pending count: '') (pendingCount w)]
                 else []) @
                (if 10 \<le> timerReportCount w + 1
                 then promise_reportError e LINGERING_PROMISE
                        (Str (seq_msg w @ ''gave up checking for pending count''))
                      @ [ClearInterval]
                 else [])
            \<and> filter is_lingering (events (tick e w)) =
                filter is_lingering (events w) @
                (if 10 \<le> timerReportCount w + 1 \<and> Reporter_isReady e
                 then [ReportError ''ETP04'' ''000''
                         (Str (seq_msg w @ ''gave up checking for pending count''))]
                 else []))
         \<and> (intervalActive w \<and> pendingCount w = 0 \<longrightarrow> tick e w = w\<lparr>timerReportCount := 0\<rparr>)
         \<and> (\<not> intervalActive w \<longrightarrow> tick e w = w)
         \<and> (run e cs (start e msg) = Some (w', us) \<longrightarrow>
              0 \<le> timerReportCount w' \<and> timerReportCount w' \<le> 10
              \<and> (intervalActive w' \<longleftrightarrow> timerReportCount w' < 10)
              \<and> length (filter is_lingering (events w')) =
                  (if \<not> intervalActive w' \<and> Reporter_isReady e then 1 else 0))"
proof -
  have "timer_inv e w'" if "run e cs (start e msg) = Some (w', us)"
    using timer_inv_run[OF timer_inv_start that] by simp
  then show ?thesis
    using tick_nonzero[of w e] tick_zero[of w e] tick_idle[of w e]
    unfolding timer_inv_def by blast
qed

text \<open>
  C7 as stated fails in a build with \<open>goog.DEBUG\<close> false: with \<open>A\<close> issued and not
  settled, a tick increments the count and no log entry is emitted.
\<close>

theorem production_build_logs_nothing_counterexample:
  "map_option (pendingCount \<circ> fst)
     (run production_build [Get ''A''] (start production_build ''db'')) = Some 1
   \<and> map_option (events \<circ> fst)
     (run production_build [Get ''A''] (start production_build ''db'')) = Some [Settled 0]
   \<and> map_option (events \<circ> fst)
     (run production_build [Get ''A'', Tick] (start production_build ''db''))
     = Some [Settled 0]
   \<and> map_option (timerReportCount \<circ> fst)
     (run production_build [Get ''A'', Tick] (start production_build ''db'')) = Some 1"
  by (simp add: run_defs)

theorem watchdog_counts_and_gives_up_once_witness:
  "pendingCount (fst (start debug_build ''db'')) = 0
   \<and> intervalActive (fst (start debug_build ''db''))
   \<and> tick debug_build (fst (start debug_build ''db''))
       = (fst (start debug_build ''db''))\<lparr>timerReportCount := 0\<rparr>
   \<and> (case run debug_build [Get ''A''] (start debug_build ''db'') of
        None \<Rightarrow> False
      | Some (w, us) \<Rightarrow>
          pendingCount w = 1 \<and> intervalActive w
          \<and> timerReportCount (tick debug_build w) = 1
          \<and> filter is_warning (events (tick debug_build w))
              = [Log WARNING ''db: lingering pending count: '' 1]
          \<and> intervalActive (tick debug_build w))
   \<and> (case run debug_build (Get ''A'' # replicate 10 Tick) (start debug_build ''db'') of
        None \<Rightarrow> False
      | Some (w, us) \<Rightarrow>
          pendingCount w = 1 \<and> timerReportCount w = 10 \<and> \<not> intervalActive w
          \<and> length (filter is_lingering (events w)) = 1
          \<and> length (filter is_warning (events w)) = 10
          \<and> tick debug_build w = w)"
proof -
  have rd: "Reporter_isReady debug_build" "goog_DEBUG debug_build"
    by (simp_all add: debug_build_def)
  have a: "pendingCount (fst (start debug_build ''db'')) = 0"
    "intervalActive (fst (start debug_build ''db''))"
    by (simp_all add: run_defs)
  have first: "tick debug_build (fst (start debug_build ''db''))
       = (fst (start debug_build ''db''))\<lparr>timerReportCount := 0\<rparr>"
    using watchdog_counts_and_gives_up_once[of "fst (start debug_build ''db'')" debug_build]
      a by blast
  obtain w1 us1 where r1: "run debug_build [Get ''A''] (start debug_build ''db'')
      = Some (w1, us1)"
    by (simp add: run_defs)
  have v1: "pendingCount w1 = 1" "intervalActive w1" "timerReportCount w1 = 0"
    "filter is_warning (events w1) = []" "seq_msg w1 = ''db: ''"
    using r1 by (auto simp: run_defs)
  have second: "timerReportCount (tick debug_build w1) = 1
      \<and> filter is_warning (events (tick debug_build w1))
              = [Log WARNING ''db: lingering pending count: '' 1]
      \<and> intervalActive (tick debug_build w1)"
    using watchdog_counts_and_gives_up_once[of w1 debug_build] v1 rd by simp
  obtain w us where r: "run debug_build (Get ''A'' # replicate 10 Tick)
      (start debug_build ''db'') = Some (w, us)"
    by (simp add: run_defs eval_nat_numeral)
  have v: "pendingCount w = 1" "length (filter is_warning (events w)) = 10"
    "timerReportCount w = 10"
    using r by (auto simp: run_defs eval_nat_numeral)
  have third: "\<not> intervalActive w \<and> length (filter is_lingering (events w)) = 1
      \<and> tick debug_build w = w"
    using watchdog_counts_and_gives_up_once[of w debug_build "Get ''A'' # replicate 10 Tick"
      "''db''" w us] r v rd
    by auto
  from a first second third v1 v show ?thesis unfolding r r1 by simp
qed

subsection \<open>The persistent store\<close>

lemmas persist_defs =
  saveData_def getData_def deleteDatabase_def goog_Promise_def goog_settle_def emit_def
  store_put_def store_get_def Persist_reportError_def Persist_FILE_ID_def DELETED_DATA_def
  DELETE_DATA_FAILED_def DELETE_DATA_BLOCKED_def Let_def

text \<open>
  C8. On a database that has the named store, \<open>saveData\<close> of bytes whose put request
  completes, followed by \<open>getData\<close> on the same store whose get request completes,
  resolves with the same bytes. \<open>getData\<close> on a store with no value under key 0
  rejects its promise (with the event of the successful request, or with the error
  event); it does not resolve with \<open>undefined\<close>.
\<close>

theorem saveData_getData_roundtrip:
  assumes "idb name = Some store"
  shows "(case saveData idb name (Bytes bs) True w of
            (idb', w1, h1) \<Rightarrow>
              heap w1 ! h1 = Fulfilled Undefined
              \<and> (case getData idb' name True w1 of
                    (w2, h2) \<Rightarrow> heap w2 ! h2 = Fulfilled (Bytes bs)))
         \<and> (store 0 = None \<longrightarrow>
              (case getData idb name True w of
                 (w2, h2) \<Rightarrow> heap w2 ! h2 = Rejected (Ev ''success''))
              \<and> (case getData idb name completes w of
                 (w2, h2) \<Rightarrow> (\<exists>r. heap w2 ! h2 = Rejected r)
                               \<and> heap w2 ! h2 \<noteq> Fulfilled Undefined))"
  using assms by (simp add: persist_defs nth_append)

theorem saveData_getData_roundtrip_witness:
  "[''base'' \<mapsto> Map.empty] ''base'' = Some Map.empty
   \<and> (case saveData [''base'' \<mapsto> Map.empty] ''base'' (Bytes [0, 1, 255]) True
            (fst (start debug_build ''db'')) of
        (idb', w1, h1) \<Rightarrow>
          heap w1 ! h1 = Fulfilled Undefined
          \<and> (case getData idb' ''base'' True w1 of
                (w2, h2) \<Rightarrow> heap w2 ! h2 = Fulfilled (Bytes [0, 1, 255])))
   \<and> (case getData [''base'' \<mapsto> Map.empty] ''base'' True (fst (start debug_build ''db'')) of
        (w2, h2) \<Rightarrow> heap w2 ! h2 = Rejected (Ev ''success''))"
proof -
  have s: "[''base'' \<mapsto> (Map.empty :: objectStore)] ''base'' = Some Map.empty" by simp
  have e: "(Map.empty :: objectStore) 0 = None" by simp
  from saveData_getData_roundtrip[where idb = "[''base'' \<mapsto> Map.empty]"
      and name = "''base''" and store = Map.empty and bs = "[0, 1, 255]"
      and w = "fst (start debug_build ''db'')" and completes = True, OF s] s e
  show ?thesis by simp
qed

text \<open>
  C10. Whatever the browser fires on the delete request, \<open>deleteDatabase\<close> first calls
  the error reporter of the file and then settles its promise: on success it reports
  \<open>DELETED_DATA\<close> and resolves, on an error it reports \<open>DELETE_DATA_FAILED\<close> and
  rejects with 1, on a blocked request it reports \<open>DELETE_DATA_BLOCKED\<close> and rejects
  with 2. With the reporter ready, the report reaches \<open>tachyfont.Reporter\<close> before the
  promise settles.
\<close>

theorem deleteDatabase_reports_every_outcome:
  "(case deleteDatabase e dbName errId [onsuccess r] w of
      (w', h) \<Rightarrow>
        heap w' ! h = Fulfilled Undefined
        \<and> events w' = events w
            @ Persist_reportError e DELETED_DATA errId (Str ''Deleted database successfully'')
            @ [Settled h]
        \<and> (Reporter_isReady e \<longrightarrow>
             events w' = events w
               @ [ReportError ''EPI03'' errId (Str ''Deleted database successfully''),
                  Settled h]))
   \<and> (case deleteDatabase e dbName errId [onerror] w of
      (w', h) \<Rightarrow>
        heap w' ! h = Rejected (Num 1)
        \<and> events w' = events w
            @ Persist_reportError e DELETE_DATA_FAILED errId (Str ''Delete database failed'')
            @ [Settled h]
        \<and> (Reporter_isReady e \<longrightarrow>
             events w' = events w
               @ [ReportError ''EPI04'' errId (Str ''Delete database failed''), Settled h]))
   \<and> (case deleteDatabase e dbName errId [onblocked] w of
      (w', h) \<Rightarrow>
        heap w' ! h = Rejected (Num 2)
        \<and> events w' = events w
            @ Persist_reportError e DELETE_DATA_BLOCKED errId (Str ''Delete database blocked'')
            @ [Settled h]
        \<and> (Reporter_isReady e \<longrightarrow>
             events w' = events w
               @ [ReportError ''EPI05'' errId (Str ''Delete database blocked''), Settled h]))"
  by (simp add: persist_defs nth_append)

theorem deleteDatabase_reports_every_outcome_witness:
  "Reporter_isReady debug_build
   \<and> (case deleteDatabase debug_build ''fontdb'' ''noto'' [onsuccess Undefined]
            (fst (start debug_build ''db'')) of
        (w', h) \<Rightarrow>
          heap w' ! h = Fulfilled Undefined
          \<and> events w' = [Settled 0,
               ReportError ''EPI03'' ''noto'' (Str ''Deleted database successfully''),
               Settled 1])
   \<and> (case deleteDatabase debug_build ''fontdb'' ''noto'' [onerror]
            (fst (start debug_build ''db'')) of
        (w', h) \<Rightarrow>
          heap w' ! h = Rejected (Num 1)
          \<and> events w' = [Settled 0,
               ReportError ''EPI04'' ''noto'' (Str ''Delete database failed''), Settled 1])
   \<and> (case deleteDatabase debug_build ''fontdb'' ''noto'' [onblocked]
            (fst (start debug_build ''db'')) of
        (w', h) \<Rightarrow>
          heap w' ! h = Rejected (Num 2)
          \<and> events w' = [Settled 0,
               ReportError ''EPI05'' ''noto'' (Str ''Delete database blocked''), Settled 1])"
proof -
  have rd: "Reporter_isReady debug_build" by (simp add: debug_build_def)
  have ev: "events (fst (start debug_build ''db'')) = [Settled 0]"
    "length (heap (fst (start debug_build ''db''))) = 1"
    by (simp_all add: run_defs)
  let ?W = "fst (start debug_build ''db'')"
  obtain w1 h1 where d1: "deleteDatabase debug_build ''fontdb'' ''noto'' [onsuccess Undefined]
      ?W = (w1, h1)"
    by (cases "deleteDatabase debug_build ''fontdb'' ''noto'' [onsuccess Undefined] ?W")
  obtain w2 h2 where d2: "deleteDatabase debug_build ''fontdb'' ''noto'' [onerror] ?W
      = (w2, h2)"
    by (cases "deleteDatabase debug_build ''fontdb'' ''noto'' [onerror] ?W")
  obtain w3 h3 where d3: "deleteDatabase debug_build ''fontdb'' ''noto'' [onblocked] ?W
      = (w3, h3)"
    by (cases "deleteDatabase debug_build ''fontdb'' ''noto'' [onblocked] ?W")
  have h: "h1 = 1" "h2 = 1" "h3 = 1"
    using d1 d2 d3 ev(2) by (auto simp: deleteDatabase_def goog_Promise_def)
  from deleteDatabase_reports_every_outcome[where e = debug_build and dbName = "''fontdb''"
      and errId = "''noto''" and r = Undefined and w = ?W]
  have rep: "heap w1 ! h1 = Fulfilled Undefined
        \<and> events w1 = events ?W
            @ [ReportError ''EPI03'' ''noto'' (Str ''Deleted database successfully''),
               Settled h1]"
    and "heap w2 ! h2 = Rejected (Num 1)
        \<and> events w2 = events ?W
            @ [ReportError ''EPI04'' ''noto'' (Str ''Delete database failed''), Settled h2]"
    and "heap w3 ! h3 = Rejected (Num 2)
        \<and> events w3 = events ?W
            @ [ReportError ''EPI05'' ''noto'' (Str ''Delete database blocked''), Settled h3]"
    using rd by (auto simp: d1 d2 d3)
  then show ?thesis unfolding d1 d2 d3 using rd ev(1) h by simp
qed

end
